theory Spec2Isabelle
  imports Main "HOL-Library.Multiset"
begin

section \<open>Data model\<close>

text \<open>
  A location is an opaque node identifier (type variable \<open>'n\<close>); a job (leg) is the
  Python tuple \<open>(A, B)\<close>: origin and destination.  A path is a list of locations.
\<close>

type_synonym 'n job = "'n \<times> 'n"

type_synonym 'n path = "'n list"

text \<open>
  Distances are Python numbers.  \<open>schedule\<close> starts its search with
  \<open>float('inf')\<close>, so the model has the finite numbers (integers; rounding of
  floats is not modelled) and the one infinite value, ordered as Python orders them.
\<close>

datatype distance = Finite int | Infinity

instantiation distance :: linorder
begin

fun less_eq_distance :: "distance \<Rightarrow> distance \<Rightarrow> bool" where
  "less_eq_distance (Finite a) (Finite b) = (a \<le> b)"
| "less_eq_distance (Finite a) Infinity = True"
| "less_eq_distance Infinity (Finite b) = False"
| "less_eq_distance Infinity Infinity = True"

fun less_distance :: "distance \<Rightarrow> distance \<Rightarrow> bool" where
  "less_distance (Finite a) (Finite b) = (a < b)"
| "less_distance (Finite a) Infinity = True"
| "less_distance Infinity (Finite b) = False"
| "less_distance Infinity Infinity = False"

instance
proof
  fix x y z :: distance
  show "(x < y) = (x \<le> y \<and> \<not> y \<le> x)"
    by (cases x; cases y) auto
  show "x \<le> x"
    by (cases x) auto
  show "x \<le> y \<Longrightarrow> y \<le> z \<Longrightarrow> x \<le> z"
    by (cases x; cases y; cases z) auto
  show "x \<le> y \<Longrightarrow> y \<le> x \<Longrightarrow> x = y"
    by (cases x; cases y) auto
  show "x \<le> y \<or> y \<le> x"
    by (cases x; cases y) auto
qed

end

text \<open>The failures the Network Oracle can raise, by the names the specification gives them.\<close>

datatype error = InvalidLocation | NoPath

section \<open>The Network Oracle\<close>

text \<open>
  Modelled from the spec: the class \<open>Graph\<close> of module \<open>graph\<close> is imported by
  \<open>transshipment_problem_oop.py\<close> and is not among the sources.  The network that
  \<open>schedule\<close> receives is taken as a parameter: the three capabilities the specification
  lists for the Network Oracle (membership test, \<open>shortest_path\<close> returning a distance
  and a node sequence, \<open>distance_from_path\<close>), each of which may raise.
\<close>

record 'n network =
  contains :: "'n \<Rightarrow> bool"
  shortest_path :: "'n \<Rightarrow> 'n \<Rightarrow> error + distance \<times> 'n path"
  distance_from_path :: "'n path \<Rightarrow> error + distance"

section \<open>Path and job conversion helpers\<close>

text \<open>
  \<^verbatim>\<open>return [(path[i], path[i + 1]) for i in range(len(path) - 1)]\<close>
  (\<open>range\<close> of a negative number is empty, as is \<open>[0..<0 - 1]\<close>).
\<close>

definition jobs_from_path :: "'n path \<Rightarrow> 'n job list" where
  "jobs_from_path path = map (\<lambda>i. (path ! i, path ! (i + 1))) [0..<length path - 1]"

text \<open>
  One round of the loop of \<open>path_from_schedule\<close>:
  \<^verbatim>\<open>if A != path[-1]: path.append(A)\<close> then \<^verbatim>\<open>path.append(B)\<close>.
  The path is never empty there (it starts as \<open>[start]\<close> and only grows), so
  \<open>path[-1]\<close> is \<open>last path\<close>.
\<close>

definition extend_path :: "'n path \<Rightarrow> 'n job \<Rightarrow> 'n path" where
  "extend_path path job =
     (case job of (A, B) \<Rightarrow> (if A \<noteq> last path then path @ [A] else path) @ [B])"

definition path_from_schedule :: "'n job list \<Rightarrow> 'n \<Rightarrow> 'n path" where
  "path_from_schedule jobs start = foldl extend_path [start] jobs"

text \<open>
  The travel path as the specification words it, for comparison with the code: whenever
  the next job's origin differs from the current last location, the node sequence of the
  Network Oracle's shortest path between the two is inserted (its first node is the
  current last location, already on the path).
\<close>

fun spec_path_from_schedule ::
  "'n network \<Rightarrow> 'n path \<Rightarrow> 'n job list \<Rightarrow> error + 'n path" where
  "spec_path_from_schedule net path [] = Inr path"
| "spec_path_from_schedule net path ((A, B) # jobs) =
     (if A \<noteq> last path then
        (case shortest_path net (last path) A of
           Inl e \<Rightarrow> Inl e
         | Inr (d, connector) \<Rightarrow> spec_path_from_schedule net (path @ tl connector @ [B]) jobs)
      else spec_path_from_schedule net (path @ [B]) jobs)"

section \<open>The auxiliary graph of the Circuit Finder\<close>

text \<open>
  Modelled from the spec: the class \<open>Graph\<close> (its constructor, the edge lookup
  \<open>g[A][B]\<close>, \<open>add_edge\<close> and \<open>breadth_first_search\<close>) is not among the sources.
  The auxiliary graph is the list of its weighted edges in insertion order, one entry per
  edge as in a dictionary.  \<open>g[A][B]\<close> raises \<open>KeyError\<close> exactly when the edge is
  absent, which is \<open>\<not> has_edge g A B\<close>.
\<close>

type_synonym 'n aux_graph = "(('n \<times> 'n) \<times> distance) list"

definition has_edge :: "'n aux_graph \<Rightarrow> 'n \<Rightarrow> 'n \<Rightarrow> bool" where
  "has_edge g A B = ((A, B) \<in> fst ` set g)"

definition add_edge :: "'n aux_graph \<Rightarrow> 'n \<Rightarrow> 'n \<Rightarrow> distance \<Rightarrow> 'n aux_graph" where
  "add_edge g A B d =
     (if has_edge g A B then map (\<lambda>e. if fst e = (A, B) then ((A, B), d) else e) g
      else g @ [((A, B), d)])"

definition successors :: "'n aux_graph \<Rightarrow> 'n \<Rightarrow> 'n list" where
  "successors g n = map (\<lambda>e. snd (fst e)) (filter (\<lambda>e. fst (fst e) = n) g)"

text \<open>
  Modelled from the spec: \<open>breadth_first_search(A, B)\<close> of the absent class
  \<open>Graph\<close>, an unweighted traversal in discovery order that returns an empty path
  when \<open>B\<close> is unreachable.  The queue holds each discovered node in front of the
  reversed route that discovered it; a node is expanded once.  The distance that the
  search returns beside the path is dropped: \<open>find_perfect_circuit\<close> discards it.
\<close>

function bfs_queue :: "'n aux_graph \<Rightarrow> 'n \<Rightarrow> 'n list \<Rightarrow> 'n path list \<Rightarrow> 'n path" where
  "bfs_queue g target visited [] = []"
| "bfs_queue g target visited ([] # queue) = bfs_queue g target visited queue"
| "bfs_queue g target visited ((node # route) # queue) =
     (if node = target then rev (node # route)
      else
        (let new = filter (\<lambda>m. m \<notin> set visited) (remdups (successors g node))
         in bfs_queue g target (visited @ new) (queue @ map (\<lambda>m. m # node # route) new)))"
  by pat_completeness auto

lemma successors_subset: "set (successors g n) \<subseteq> (\<lambda>e. snd (fst e)) ` set g"
  by (auto simp: successors_def)

termination bfs_queue
proof (relation
    "(\<lambda>(g, target, visited, queue). card ((\<lambda>e. snd (fst e)) ` set g - set visited))
       <*mlex*> measure (\<lambda>(g, target, visited, queue). length queue)", goal_cases)
  case 1
  show ?case by (simp add: wf_mlex)
next
  case (2 g target visited queue)
  show ?case by (rule mlex_leq) simp_all
next
  case (3 g target visited node route queue new)
  let ?N = "(\<lambda>e. snd (fst e)) ` set g"
  show ?case
  proof (cases "new = []")
    case True
    then show ?thesis by (intro mlex_leq) simp_all
  next
    case False
    then obtain m where m: "m \<in> set new" by (cases new) auto
    with 3 have "m \<in> ?N" "m \<notin> set visited"
      using successors_subset [of g node] by auto
    then have "?N - set (visited @ new) \<subset> ?N - set visited"
      using m by auto
    then have "card (?N - set (visited @ new)) < card (?N - set visited)"
      by (intro psubset_card_mono) simp_all
    then show ?thesis by (intro mlex_less) simp
  qed
qed

declare bfs_queue.simps [simp del]

definition breadth_first_search :: "'n aux_graph \<Rightarrow> 'n \<Rightarrow> 'n \<Rightarrow> 'n path" where
  "breadth_first_search g A B = bfs_queue g B [A] [[A]]"

section \<open>The Circuit Finder\<close>

text \<open>
  The first loop of \<open>find_perfect_circuit\<close>:
  \<^verbatim>\<open>
  for A, B in jobs:
      try: g[A][B]
      except KeyError:
          d, p = graph.shortest_path(A, B)
          g.add_edge(A, B, d)
  \<close>
  The model threads the graph built so far and a log of the pairs on which
  \<open>graph.shortest_path\<close> has been called; a failing call ends the loop with its error,
  and the log is kept in that case too.
\<close>

fun build_aux_graph ::
  "'n network \<Rightarrow> 'n job list \<Rightarrow> 'n aux_graph \<Rightarrow> 'n job list
     \<Rightarrow> 'n job list \<times> (error + 'n aux_graph)" where
  "build_aux_graph net [] g queried = (queried, Inr g)"
| "build_aux_graph net ((A, B) # jobs) g queried =
     (if has_edge g A B then build_aux_graph net jobs g queried
      else
        (case shortest_path net A B of
           Inl e \<Rightarrow> (queried @ [(A, B)], Inl e)
         | Inr (d, p) \<Rightarrow> build_aux_graph net jobs (add_edge g A B d) (queried @ [(A, B)])))"

text \<open>
  The second loop:
  \<^verbatim>\<open>
  for A in new_starts:
      _, p = g.breadth_first_search(A, start)
      if p: return [start] + p
  return []
  \<close>
\<close>

fun first_circuit :: "'n aux_graph \<Rightarrow> 'n \<Rightarrow> 'n list \<Rightarrow> 'n path" where
  "first_circuit g start [] = []"
| "first_circuit g start (A # new_starts) =
     (let p = breadth_first_search g A start
      in if p \<noteq> [] then [start] @ p else first_circuit g start new_starts)"

definition new_starts :: "'n \<Rightarrow> 'n job list \<Rightarrow> 'n list" where
  "new_starts start jobs = map snd (filter (\<lambda>job. fst job = start) jobs)"

definition find_perfect_circuit :: "'n network \<Rightarrow> 'n \<Rightarrow> 'n job list \<Rightarrow> error + 'n path" where
  "find_perfect_circuit net start jobs =
     (case snd (build_aux_graph net jobs [] []) of
        Inl e \<Rightarrow> Inl e
      | Inr g \<Rightarrow> Inr (first_circuit g start (new_starts start jobs)))"

section \<open>The Permutation Evaluator\<close>

text \<open>
  \<open>itertools.permutations(xs, len(xs))\<close> yields the orderings in lexicographic order
  of the positions: every position in turn supplies the first element, followed by the
  orderings of the others.  Equal elements at different positions give equal orderings
  more than once.
\<close>

fun picks :: "'a list \<Rightarrow> ('a \<times> 'a list) list" where
  "picks [] = []"
| "picks (x # xs) = (x, xs) # map (\<lambda>p. (fst p, x # snd p)) (picks xs)"

lemma picks_length: "p \<in> set (picks xs) \<Longrightarrow> Suc (length (snd p)) = length xs"
  by (induction xs arbitrary: p) auto

function permutations :: "'a list \<Rightarrow> 'a list list" where
  "permutations xs =
     (if xs = [] then [[]]
      else concat (map (\<lambda>p. map ((#) (fst p)) (permutations (snd p))) (picks xs)))"
  by pat_completeness auto

termination permutations
  by (relation "measure length") (auto dest: picks_length)

declare permutations.simps [simp del]

text \<open>
  The search for the shortest ordering:
  \<^verbatim>\<open>
  for perm in itertools.permutations(jobs_to_plan, len(jobs_to_plan)):
      path = path_from_schedule(jobs=perm, start=start)
      distance = graph.distance_from_path(path)
      if distance < shortest_distance:
          shortest_distance = distance
          shortest_path = path
  \<close>
  with the pair \<open>(shortest_distance, shortest_path)\<close> as the loop's state.
\<close>

fun evaluate_permutations ::
  "'n network \<Rightarrow> 'n \<Rightarrow> 'n job list list \<Rightarrow> distance \<times> 'n path \<Rightarrow> error + distance \<times> 'n path" where
  "evaluate_permutations net start [] best = Inr best"
| "evaluate_permutations net start (perm # perms) best =
     (let path = path_from_schedule perm start in
      case distance_from_path net path of
        Inl e \<Rightarrow> Inl e
      | Inr distance \<Rightarrow>
          if distance < fst best then evaluate_permutations net start perms (distance, path)
          else evaluate_permutations net start perms best)"

definition permutation_fallback :: "'n network \<Rightarrow> 'n \<Rightarrow> 'n job list \<Rightarrow> error + distance \<times> 'n path" where
  "permutation_fallback net start jobs_to_plan =
     evaluate_permutations net start (permutations jobs_to_plan) (Infinity, [])"

section \<open>The Schedule Assembler\<close>

text \<open>
  The job sequence of one round of the while-loop of \<open>schedule\<close>: the circuit when
  \<open>find_perfect_circuit\<close> returns a non-empty (truthy) path, the shortest ordering
  otherwise.
\<close>

definition job_sequence :: "'n network \<Rightarrow> 'n \<Rightarrow> 'n job list \<Rightarrow> error + 'n job list" where
  "job_sequence net start jobs_to_plan =
     (case find_perfect_circuit net start jobs_to_plan of
        Inl e \<Rightarrow> Inl e
      | Inr circuit_path \<Rightarrow>
          if circuit_path \<noteq> [] then Inr (jobs_from_path circuit_path)
          else
            (case permutation_fallback net start jobs_to_plan of
               Inl e \<Rightarrow> Inl e
             | Inr (shortest_distance, shortest) \<Rightarrow> Inr (jobs_from_path shortest)))"

text \<open>
  The state of the loop is the pair \<open>(jobs_to_plan, new_schedule)\<close>.  One round of
  \<^verbatim>\<open>
  for job in job_sequence:
      if job in jobs_to_plan:
          jobs_to_plan.remove(job)
          new_schedule.append(job)
  \<close>
  (\<open>list.remove\<close> deletes the first equal element):
\<close>

type_synonym 'n state = "'n job list \<times> 'n job list"

definition consume_job :: "'n state \<Rightarrow> 'n job \<Rightarrow> 'n state" where
  "consume_job st job =
     (case st of (jobs_to_plan, new_schedule) \<Rightarrow>
        if job \<in> set jobs_to_plan then (remove1 job jobs_to_plan, new_schedule @ [job])
        else (jobs_to_plan, new_schedule))"

definition schedule_iteration :: "'n network \<Rightarrow> 'n \<Rightarrow> 'n state \<Rightarrow> error + 'n state" where
  "schedule_iteration net start st =
     (case job_sequence net start (fst st) of
        Inl e \<Rightarrow> Inl e
      | Inr js \<Rightarrow> Inr (foldl consume_job st js))"

text \<open>
  \<open>run n\<close> executes the while-loop for at most \<open>n\<close> rounds: it stops when
  \<open>jobs_to_plan\<close> is empty or an Oracle call has raised.
\<close>

fun run :: "nat \<Rightarrow> 'n network \<Rightarrow> 'n \<Rightarrow> 'n state \<Rightarrow> error + 'n state" where
  "run 0 net start st = Inr st"
| "run (Suc n) net start st =
     (if fst st = [] then Inr st
      else
        (case schedule_iteration net start st of
           Inl e \<Rightarrow> Inl e
         | Inr st' \<Rightarrow> run n net start st'))"

text \<open>
  \<open>schedule\<close> with fuel, the number of rounds the while-loop may take: \<open>None\<close> when
  the loop has not ended within them, \<open>Some (Inl e)\<close> when an Oracle call raised
  \<open>e\<close>, \<open>Some (Inr new_schedule)\<close> when the function returned.
\<close>

definition schedule ::
  "nat \<Rightarrow> 'n network \<Rightarrow> 'n \<Rightarrow> 'n job list \<Rightarrow> (error + 'n job list) option" where
  "schedule fuel net start jobs =
     (case run fuel net start (jobs, []) of
        Inl e \<Rightarrow> Some (Inl e)
      | Inr (jobs_to_plan, new_schedule) \<Rightarrow>
          if jobs_to_plan = [] then Some (Inr new_schedule) else None)"

text \<open>
  The points of an execution: \<open>state_at net start jobs n k\<close> is the state after
  \<open>n\<close> complete rounds of the while-loop and \<open>k\<close> further rounds of the for-loop
  that removes planned jobs, when the execution gets there.
\<close>

definition state_at ::
  "'n network \<Rightarrow> 'n \<Rightarrow> 'n job list \<Rightarrow> nat \<Rightarrow> nat \<Rightarrow> 'n state option" where
  "state_at net start jobs n k =
     (case run n net start (jobs, []) of
        Inl e \<Rightarrow> None
      | Inr st \<Rightarrow>
          if k = 0 then Some st
          else if fst st = [] then None
          else
            (case job_sequence net start (fst st) of
               Inl e \<Rightarrow> None
             | Inr js \<Rightarrow> if k \<le> length js then Some (foldl consume_job st (take k js)) else None))"

section \<open>The Schedule Assembler on a store\<close>

text \<open>
  The same function with the lists as objects of a store, for the question whether
  the caller's list is changed.  The store is the list of the list objects; a reference
  is an index into it, and allocation appends.  \<open>consume_job_heap\<close> is one round of
  the for-loop, with \<open>jobs_to_plan.remove(job)\<close> and \<open>new_schedule.append(job)\<close>
  as updates of the store.
\<close>

type_synonym 'n heap = "'n job list list"

definition consume_job_heap :: "nat \<Rightarrow> nat \<Rightarrow> 'n heap \<Rightarrow> 'n job \<Rightarrow> 'n heap" where
  "consume_job_heap jobs_to_plan new_schedule h job =
     (if job \<in> set (h ! jobs_to_plan) then
        (let h1 = h[jobs_to_plan := remove1 job (h ! jobs_to_plan)]
         in h1[new_schedule := h1 ! new_schedule @ [job]])
      else h)"

text \<open>
  The while-loop on the store; beside the store it returns the error of the Oracle call
  that raised, if one did.
\<close>

fun run_heap :: "nat \<Rightarrow> 'n network \<Rightarrow> 'n \<Rightarrow> nat \<Rightarrow> nat \<Rightarrow> 'n heap \<Rightarrow> 'n heap \<times> error option" where
  "run_heap 0 net start jobs_to_plan new_schedule h = (h, None)"
| "run_heap (Suc n) net start jobs_to_plan new_schedule h =
     (if h ! jobs_to_plan = [] then (h, None)
      else
        (case job_sequence net start (h ! jobs_to_plan) of
           Inl e \<Rightarrow> (h, Some e)
         | Inr js \<Rightarrow>
             run_heap n net start jobs_to_plan new_schedule
               (foldl (consume_job_heap jobs_to_plan new_schedule) h js)))"

text \<open>
  \<open>schedule\<close> receives the reference \<open>jobs\<close>, an index below the length of
  the store.  Line 175 allocates the empty
  \<open>new_schedule\<close>, line 176 allocates \<open>jobs_to_plan\<close> as the copy \<open>jobs[:]\<close>;
  the result is the store with the reference to \<open>new_schedule\<close> or the error.
\<close>

definition schedule_heap ::
  "nat \<Rightarrow> 'n network \<Rightarrow> 'n \<Rightarrow> nat \<Rightarrow> 'n heap \<Rightarrow> ('n heap \<times> (error + nat)) option" where
  "schedule_heap fuel net start jobs h =
     (let new_schedule = length h;
          h1 = h @ [[]];
          jobs_to_plan = length h1;
          h2 = h1 @ [h1 ! jobs]
      in case run_heap fuel net start jobs_to_plan new_schedule h2 of
           (h', Some e) \<Rightarrow> Some (h', Inl e)
         | (h', None) \<Rightarrow>
             if h' ! jobs_to_plan = [] then Some (h', Inr new_schedule) else None)"

text \<open>The two lists of the loop, read from the store.\<close>

definition view :: "nat \<Rightarrow> nat \<Rightarrow> 'n heap \<Rightarrow> 'n state" where
  "view p q h = (h ! p, h ! q)"

section \<open>Auxiliary notions\<close>

text \<open>The order in which a list first shows each of its elements.\<close>

definition first_occurrences :: "'a list \<Rightarrow> 'a list" where
  "first_occurrences xs = rev (remdups (rev xs))"

text \<open>
  A queue entry of the search is a route when, read backwards, it leads from \<open>A\<close>
  along edges of the graph.
\<close>

definition route_ok :: "'n aux_graph \<Rightarrow> 'n \<Rightarrow> 'n path \<Rightarrow> bool" where
  "route_ok g A r = (r = [] \<or> (last r = A \<and> set (jobs_from_path (rev r)) \<subseteq> fst ` set g))"

section \<open>Example networks\<close>

text \<open>
  The fully connected network with unit edges on the locations \<open>nodes\<close>.  A query
  that names a location outside the network fails with \<open>InvalidLocation\<close>; the
  distance of a path is its number of moves between different locations.
\<close>

definition complete_network :: "'n list \<Rightarrow> 'n network" where
  "complete_network nodes =
     \<lparr>contains = (\<lambda>n. n \<in> set nodes),
      shortest_path = (\<lambda>a b.
         if a \<in> set nodes \<and> b \<in> set nodes
         then Inr (if a = b then (Finite 0, [a]) else (Finite 1, [a, b]))
         else Inl InvalidLocation),
      distance_from_path = (\<lambda>p.
         if list_all (\<lambda>n. n \<in> set nodes) p
         then Inr (Finite (int (length (filter (\<lambda>e. fst e \<noteq> snd e) (jobs_from_path p)))))
         else Inl InvalidLocation)\<rparr>"

text \<open>Example 1 of the specification: the network \<open>{A, B, C}\<close>.\<close>

definition unit_network :: "string network" where
  "unit_network = complete_network [''A'', ''B'', ''C'']"

text \<open>
  A chain \<open>A - B - C\<close> with unit edges: the shortest path between \<open>A\<close> and
  \<open>C\<close> passes through \<open>B\<close>.
\<close>

definition chain_hops :: "string \<Rightarrow> string \<Rightarrow> int" where
  "chain_hops a b =
     (if a = b then 0 else if (a, b) = (''A'', ''C'') \<or> (a, b) = (''C'', ''A'') then 2 else 1)"

definition chain_network :: "string network" where
  "chain_network =
     \<lparr>contains = (\<lambda>n. n \<in> set [''A'', ''B'', ''C'']),
      shortest_path = (\<lambda>a b.
         if a \<in> set [''A'', ''B'', ''C''] \<and> b \<in> set [''A'', ''B'', ''C'']
         then Inr (Finite (chain_hops a b),
                   if a = b then [a] else if chain_hops a b = 2 then [a, ''B'', b] else [a, b])
         else Inl InvalidLocation),
      distance_from_path = (\<lambda>p.
         if list_all (\<lambda>n. n \<in> set [''A'', ''B'', ''C'']) p
         then Inr (Finite (sum_list (map (\<lambda>e. chain_hops (fst e) (snd e)) (jobs_from_path p))))
         else Inl InvalidLocation)\<rparr>"


section \<open>Properties of the helpers\<close>

lemma jobs_from_path_zip: "jobs_from_path path = zip path (tl path)"
  unfolding jobs_from_path_def
  by (rule nth_equalityI) (auto simp: nth_tl)

lemma jobs_from_path_simps [simp]:
  "jobs_from_path [] = []"
  "jobs_from_path [x] = []"
  "jobs_from_path (x # y # xs) = (x, y) # jobs_from_path (y # xs)"
  by (simp_all add: jobs_from_path_zip)

lemma jobs_from_path_snoc:
  "path \<noteq> [] \<Longrightarrow> jobs_from_path (path @ [x]) = jobs_from_path path @ [(last path, x)]"
proof (induction path rule: induct_list012)
  case (3 a b rest)
  then show ?case by simp
qed simp_all

lemma path_from_schedule_Nil [simp]: "path_from_schedule [] start = [start]"
  by (simp add: path_from_schedule_def)

lemma path_from_schedule_snoc:
  "path_from_schedule (jobs @ [(A, B)]) start =
     (if A \<noteq> last (path_from_schedule jobs start) then path_from_schedule jobs start @ [A, B]
      else path_from_schedule jobs start @ [B])"
  by (simp add: path_from_schedule_def extend_path_def)

lemma path_from_schedule_not_Nil [simp]: "path_from_schedule jobs start \<noteq> []"
  by (induction jobs rule: rev_induct) (auto simp: path_from_schedule_snoc split: if_splits)

lemma set_path_from_schedule:
  "set (path_from_schedule jobs start) = {start} \<union> fst ` set jobs \<union> snd ` set jobs"
proof (induction jobs rule: rev_induct)
  case Nil
  show ?case by simp
next
  case (snoc job jobs)
  obtain A B where job: "job = (A, B)" by (cases job)
  have "last (path_from_schedule jobs start) \<in> set (path_from_schedule jobs start)"
    by simp
  with snoc show ?case
    unfolding job path_from_schedule_snoc by auto
qed

section \<open>Conservation of jobs\<close>

lemma consume_job_mset:
  "mset (fst (consume_job st job)) + mset (snd (consume_job st job)) = mset (fst st) + mset (snd st)"
  by (cases st) (auto simp: consume_job_def)

lemma consume_jobs_mset:
  "mset (fst (foldl consume_job st js)) + mset (snd (foldl consume_job st js))
     = mset (fst st) + mset (snd st)"
  by (induction js arbitrary: st) (simp_all add: consume_job_mset)






lemma schedule_iteration_mset:
  "schedule_iteration net start st = Inr st' \<Longrightarrow>
     mset (fst st') + mset (snd st') = mset (fst st) + mset (snd st)"
  by (auto simp: schedule_iteration_def consume_jobs_mset split: sum.splits)

lemma run_mset:
  "run n net start st = Inr st' \<Longrightarrow> mset (fst st') + mset (snd st') = mset (fst st) + mset (snd st)"
proof (induction n arbitrary: st)
  case 0
  then show ?case by simp
next
  case (Suc n)
  show ?case
  proof (cases "fst st = []")
    case True
    with Suc.prems show ?thesis by simp
  next
    case False
    with Suc.prems obtain st1 where s1: "schedule_iteration net start st = Inr st1"
      and r: "run n net start st1 = Inr st'"
      by (auto split: sum.splits)
    from Suc.IH [OF r] schedule_iteration_mset [OF s1] show ?thesis by simp
  qed
qed

lemma state_at_mset:
  assumes "state_at net start jobs n k = Some st"
  shows "mset (fst st) + mset (snd st) = mset jobs"
proof -
  from assms obtain st0 where r: "run n net start (jobs, []) = Inr st0"
    by (auto simp: state_at_def split: sum.splits)
  from run_mset [OF r] have inv: "mset (fst st0) + mset (snd st0) = mset jobs" by simp
  show ?thesis
  proof (cases "k = 0")
    case True
    with assms r inv show ?thesis by (simp add: state_at_def)
  next
    case False
    with assms r obtain js where "st = foldl consume_job st0 (take k js)"
      by (auto simp: state_at_def split: sum.splits if_splits)
    with inv show ?thesis by (simp add: consume_jobs_mset)
  qed
qed

lemma disjoint_of_distinct:
  assumes "mset pool + mset sched = mset jobs" "distinct jobs"
  shows "mset pool \<inter># mset sched = {#}"
proof -
  from assms(1) have "mset (pool @ sched) = mset jobs" by simp
  then have "distinct (pool @ sched)" using assms(2) by (metis mset_eq_imp_distinct_iff)
  then have "set pool \<inter> set sched = {}" by simp
  then show ?thesis by (metis set_mset_inter set_mset_mset set_mset_eq_empty_iff)
qed

lemma schedule_result_mset:
  assumes "schedule fuel net start jobs = Some (Inr new_schedule)"
  shows "mset new_schedule = mset jobs"
proof -
  from assms have r: "run fuel net start (jobs, []) = Inr ([], new_schedule)"
    by (auto simp: schedule_def split: sum.splits if_splits)
  from run_mset [OF r] show ?thesis by simp
qed


subsection \<open>Soundness of the breadth-first search\<close>



lemma successors_edge: "m \<in> set (successors g n) \<Longrightarrow> (n, m) \<in> fst ` set g"
  by (force simp: successors_def)

lemma route_ok_extend:
  assumes "route_ok g A (node # route)" "m \<in> set (successors g node)"
  shows "route_ok g A (m # node # route)"
proof -
  have "jobs_from_path (rev (node # route) @ [m]) = jobs_from_path (rev (node # route)) @ [(node, m)]"
    by (subst jobs_from_path_snoc) simp_all
  with assms successors_edge [OF assms(2)] show ?thesis
    by (simp add: route_ok_def)
qed

lemma bfs_queue_sound:
  "\<forall>r \<in> set queue. route_ok g A r \<Longrightarrow> bfs_queue g target visited queue = p \<Longrightarrow> p \<noteq> [] \<Longrightarrow>
     hd p = A \<and> last p = target \<and> set (jobs_from_path p) \<subseteq> fst ` set g"
proof (induction g target visited queue rule: bfs_queue.induct)
  case (1 g target visited)
  then show ?case by (simp add: bfs_queue.simps)
next
  case (2 g target visited queue)
  then show ?case by (simp add: bfs_queue.simps)
next
  case (3 g target visited node route queue)
  show ?case
  proof (cases "node = target")
    case True
    with "3.prems" have p: "p = rev (node # route)" by (simp add: bfs_queue.simps)
    from "3.prems"(1) have ok: "route_ok g A (node # route)" by simp
    then have "last (node # route) = A" "set (jobs_from_path (rev (node # route))) \<subseteq> fst ` set g"
      by (simp_all add: route_ok_def)
    moreover have "hd (rev (node # route)) = last (node # route)"
      by (rule hd_rev)
    moreover have "last (rev (node # route)) = node"
      by (simp add: last_rev)
    ultimately show ?thesis unfolding p using True
      by simp
  next
    case False
    define new where "new = filter (\<lambda>m. m \<notin> set visited) (remdups (successors g node))"
    have ok: "route_ok g A (node # route)"
      using "3.prems"(1) by simp
    have "route_ok g A (m # node # route)" if "m \<in> set new" for m
      using that by (intro route_ok_extend [OF ok]) (simp add: new_def)
    then have "\<forall>r \<in> set (queue @ map (\<lambda>m. m # node # route) new). route_ok g A r"
      using "3.prems"(1) by auto
    moreover have "bfs_queue g target (visited @ new) (queue @ map (\<lambda>m. m # node # route) new) = p"
      using "3.prems"(2) False by (simp add: bfs_queue.simps(3) [of g target visited node route queue] new_def Let_def)
    ultimately show ?thesis
      by (rule "3.IH" [OF False new_def, OF _ _ "3.prems"(3)])
  qed
qed

lemma breadth_first_search_sound:
  assumes "breadth_first_search g A B \<noteq> []"
  shows "hd (breadth_first_search g A B) = A \<and> last (breadth_first_search g A B) = B \<and>
         set (jobs_from_path (breadth_first_search g A B)) \<subseteq> fst ` set g"
proof -
  have "\<forall>r \<in> set [[A]]. route_ok g A r" by (simp add: route_ok_def)
  moreover have "bfs_queue g B [A] [[A]] \<noteq> []"
    using assms unfolding breadth_first_search_def .
  ultimately show ?thesis
    unfolding breadth_first_search_def
    by (rule bfs_queue_sound [OF _ refl])
qed

lemma first_circuit_Cons:
  "first_circuit g start (A # rest) =
     (if breadth_first_search g A start \<noteq> [] then start # breadth_first_search g A start
      else first_circuit g start rest)"
  by (simp add: Let_def)

lemma first_circuit_sound:
  "first_circuit g start starts \<noteq> [] \<Longrightarrow>
   \<exists>A \<in> set starts. breadth_first_search g A start \<noteq> [] \<and>
      first_circuit g start starts = start # breadth_first_search g A start"
proof (induction starts)
  case Nil
  then show ?case by simp
next
  case (Cons A rest)
  show ?case
  proof (cases "breadth_first_search g A start = []")
    case True
    then have eq: "first_circuit g start (A # rest) = first_circuit g start rest"
      by (simp only: first_circuit_Cons) simp
    with Cons.prems have "first_circuit g start rest \<noteq> []" by simp
    from Cons.IH [OF this] obtain A' where "A' \<in> set rest"
      "breadth_first_search g A' start \<noteq> []"
      "first_circuit g start rest = start # breadth_first_search g A' start"
      by blast
    then show ?thesis unfolding eq by (intro bexI [of _ A']) simp_all
  next
    case False
    then have "first_circuit g start (A # rest) = start # breadth_first_search g A start"
      by (simp only: first_circuit_Cons) simp
    with False show ?thesis by (intro bexI [of _ A]) simp_all
  qed
qed

section \<open>More fuel does not change the result\<close>

lemma run_done: "fst st = [] \<Longrightarrow> run k net start st = Inr st"
  by (cases k) simp_all

lemma run_add:
  "run (n + k) net start st =
     (case run n net start st of Inl e \<Rightarrow> Inl e | Inr st' \<Rightarrow> run k net start st')"
proof (induction n arbitrary: st)
  case 0
  show ?case by simp
next
  case (Suc n)
  show ?case
  proof (cases "fst st = []")
    case True
    then show ?thesis by (simp add: run_done)
  next
    case False
    then show ?thesis by (simp add: Suc split: sum.splits)
  qed
qed

lemma schedule_fuel_mono:
  assumes "schedule n net start jobs = Some r"
  shows "schedule (n + k) net start jobs = Some r"
proof (cases "run n net start (jobs, [])")
  case (Inl e)
  with assms show ?thesis by (simp add: schedule_def run_add)
next
  case (Inr st)
  with assms have "fst st = []" by (cases st) (auto simp: schedule_def split: if_splits)
  with Inr assms show ?thesis by (simp add: schedule_def run_add run_done)
qed

section \<open>The auxiliary graph\<close>

lemma remdups_skip_later: "x \<in> set zs \<Longrightarrow> remdups (ys @ x # zs) = remdups (ys @ zs)"
  by (induction ys) auto

lemma first_occurrences_skip:
  "x \<in> set ks \<Longrightarrow> first_occurrences (ks @ x # js) = first_occurrences (ks @ js)"
  by (simp add: first_occurrences_def remdups_skip_later)

lemma first_occurrences_distinct: "distinct ks \<Longrightarrow> first_occurrences ks = ks"
  by (simp add: first_occurrences_def distinct_remdups_id)

lemma add_edge_new: "\<not> has_edge g A B \<Longrightarrow> add_edge g A B d = g @ [((A, B), d)]"
  by (simp add: add_edge_def)

lemma build_aux_graph_inv:
  assumes "queried = map fst g" "distinct (map fst g)"
  shows "distinct (fst (build_aux_graph net jobs g queried)) \<and>
         set (fst (build_aux_graph net jobs g queried)) \<subseteq> set (map fst g) \<union> set jobs \<and>
         (\<forall>g'. snd (build_aux_graph net jobs g queried) = Inr g' \<longrightarrow>
            fst (build_aux_graph net jobs g queried) = map fst g' \<and>
            map fst g' = first_occurrences (map fst g @ jobs) \<and>
            (\<forall>e \<in> set g'. e \<in> set g \<or>
               (\<exists>p. shortest_path net (fst (fst e)) (snd (fst e)) = Inr (snd e, p))))"
  using assms
proof (induction net jobs g queried rule: build_aux_graph.induct)
  case (1 net g queried)
  then show ?case by (simp add: first_occurrences_distinct)
next
  case (2 net A B jobs g queried)
  show ?case
  proof (cases "has_edge g A B")
    case True
    then have mem: "(A, B) \<in> set (map fst g)" by (simp add: has_edge_def)
    have eq: "build_aux_graph net ((A, B) # jobs) g queried = build_aux_graph net jobs g queried"
      using True by simp
    from "2.IH"(1) [OF True "2.prems"] mem show ?thesis
      unfolding eq by (auto simp: first_occurrences_skip)
  next
    case False
    then have nmem: "(A, B) \<notin> set (map fst g)" by (simp add: has_edge_def)
    show ?thesis
    proof (cases "shortest_path net A B")
      case (Inl e)
      with False have eq: "build_aux_graph net ((A, B) # jobs) g queried = (queried @ [(A, B)], Inl e)"
        by simp
      show ?thesis unfolding eq using "2.prems" nmem by auto
    next
      case (Inr r)
      obtain d p where r: "r = (d, p)" by (cases r)
      let ?g = "add_edge g A B d"
      have g: "?g = g @ [((A, B), d)]" using False by (rule add_edge_new)
      have eq: "build_aux_graph net ((A, B) # jobs) g queried
                  = build_aux_graph net jobs ?g (queried @ [(A, B)])"
        using False Inr r by simp
      have q: "queried @ [(A, B)] = map fst ?g" using "2.prems"(1) g by simp
      have dist: "distinct (map fst ?g)" using "2.prems"(2) nmem g by simp
      have sp: "shortest_path net A B = Inr (d, p)" using Inr r by simp
      let ?R = "build_aux_graph net jobs ?g (queried @ [(A, B)])"
      from "2.IH"(2) [OF False Inr r [symmetric] q dist]
      have d1: "distinct (fst ?R)"
        and s1: "set (fst ?R) \<subseteq> set (map fst ?g) \<union> set jobs"
        and a1: "\<And>g'. snd ?R = Inr g' \<Longrightarrow>
            fst ?R = map fst g' \<and> map fst g' = first_occurrences (map fst ?g @ jobs) \<and>
            (\<forall>e \<in> set g'. e \<in> set ?g \<or>
               (\<exists>p. shortest_path net (fst (fst e)) (snd (fst e)) = Inr (snd e, p)))"
        by blast+
      show ?thesis
        unfolding eq
      proof (intro conjI allI impI)
        show "distinct (fst ?R)" by fact
        show "set (fst ?R) \<subseteq> set (map fst g) \<union> set ((A, B) # jobs)"
          using s1 g by auto
      next
        fix g' assume r': "snd ?R = Inr g'"
        from a1 [OF r'] show "fst ?R = map fst g'" by blast
        from a1 [OF r'] show "map fst g' = first_occurrences (map fst g @ (A, B) # jobs)"
          by (simp add: g)
        show "\<forall>e \<in> set g'. e \<in> set g \<or>
               (\<exists>p. shortest_path net (fst (fst e)) (snd (fst e)) = Inr (snd e, p))"
        proof
          fix e assume "e \<in> set g'"
          with a1 [OF r'] have "e \<in> set ?g \<or>
               (\<exists>p. shortest_path net (fst (fst e)) (snd (fst e)) = Inr (snd e, p))"
            by blast
          then show "e \<in> set g \<or>
               (\<exists>p. shortest_path net (fst (fst e)) (snd (fst e)) = Inr (snd e, p))"
            using sp by (auto simp: g)
        qed
      qed
    qed
  qed
qed

lemma new_starts_job: "A \<in> set (new_starts start jobs) \<Longrightarrow> (start, A) \<in> set jobs"
  by (auto simp: new_starts_def)

lemma set_first_occurrences [simp]: "set (first_occurrences xs) = set xs"
  by (simp add: first_occurrences_def)

lemma find_perfect_circuit_graph:
  assumes "find_perfect_circuit net start jobs = Inr path"
  obtains g where "snd (build_aux_graph net jobs [] []) = Inr g" "fst ` set g = set jobs"
    "path = first_circuit g start (new_starts start jobs)"
proof -
  from assms obtain g where g: "snd (build_aux_graph net jobs [] []) = Inr g"
    and p: "path = first_circuit g start (new_starts start jobs)"
    by (auto simp: find_perfect_circuit_def split: sum.splits)
  from build_aux_graph_inv [of "[]" "[]" net jobs] g
  have "map fst g = first_occurrences jobs" by simp
  then have "set (map fst g) = set jobs" by (metis set_first_occurrences)
  then have "fst ` set g = set jobs" by simp
  with g p that show ?thesis by blast
qed

lemma find_perfect_circuit_sound:
  assumes "find_perfect_circuit net start jobs = Inr path" "path \<noteq> []"
  shows "hd path = start \<and> last path = start \<and> set (jobs_from_path path) \<subseteq> set jobs \<and>
         (\<exists>A rest. (start, A) \<in> set jobs \<and> jobs_from_path path = (start, A) # rest)"
proof -
  from assms(1) obtain g where edges: "fst ` set g = set jobs"
    and path: "path = first_circuit g start (new_starts start jobs)"
    by (rule find_perfect_circuit_graph)
  from first_circuit_sound [of g start "new_starts start jobs"] assms(2) path
  obtain A where A: "A \<in> set (new_starts start jobs)"
    and p: "breadth_first_search g A start \<noteq> []"
    and eq: "path = start # breadth_first_search g A start"
    by auto
  let ?p = "breadth_first_search g A start"
  from breadth_first_search_sound [OF p]
  have hd: "hd ?p = A" and last: "last ?p = start" and sub: "set (jobs_from_path ?p) \<subseteq> set jobs"
    using edges by simp_all
  from p obtain x xs where px: "?p = x # xs" by (cases ?p) auto
  with hd have "x = A" by simp
  with px have "jobs_from_path (start # ?p) = (start, A) # jobs_from_path ?p" by simp
  with sub new_starts_job [OF A] last p show ?thesis
    unfolding eq by simp
qed

lemma first_circuit_none:
  "\<forall>A \<in> set starts. breadth_first_search g A start = [] \<Longrightarrow> first_circuit g start starts = []"
  by (induction starts) (simp_all add: first_circuit_Cons)

section \<open>The membership test is never consulted\<close>

lemma build_aux_graph_contains [simp]:
  "build_aux_graph (net\<lparr>contains := c\<rparr>) jobs g queried = build_aux_graph net jobs g queried"
  by (induction net jobs g queried rule: build_aux_graph.induct) (simp_all split: sum.splits)

lemma evaluate_permutations_contains [simp]:
  "evaluate_permutations (net\<lparr>contains := c\<rparr>) start perms best
     = evaluate_permutations net start perms best"
  by (induction perms arbitrary: best) (simp_all add: Let_def split: sum.splits)

lemma find_perfect_circuit_contains [simp]:
  "find_perfect_circuit (net\<lparr>contains := c\<rparr>) start jobs = find_perfect_circuit net start jobs"
  by (simp add: find_perfect_circuit_def)

lemma permutation_fallback_contains [simp]:
  "permutation_fallback (net\<lparr>contains := c\<rparr>) start jobs = permutation_fallback net start jobs"
  by (simp add: permutation_fallback_def)

lemma job_sequence_contains [simp]:
  "job_sequence (net\<lparr>contains := c\<rparr>) start jobs = job_sequence net start jobs"
  by (simp add: job_sequence_def split: sum.splits)

lemma schedule_iteration_contains [simp]:
  "schedule_iteration (net\<lparr>contains := c\<rparr>) start st = schedule_iteration net start st"
  by (simp add: schedule_iteration_def)

lemma run_contains [simp]: "run n (net\<lparr>contains := c\<rparr>) start st = run n net start st"
  by (induction n arbitrary: st) (simp_all split: sum.splits)

lemma find_perfect_circuit_first_query:
  "shortest_path net A B = Inl e \<Longrightarrow> find_perfect_circuit net start ((A, B) # jobs) = Inl e"
  by (simp add: find_perfect_circuit_def has_edge_def)

section \<open>The enumeration of the orderings\<close>

lemma permutations_Nil [simp]: "permutations [] = [[]]"
  by (simp add: permutations.simps)








section \<open>The search for the shortest ordering\<close>


section \<open>Progress of the while-loop\<close>








section \<open>The store version simulates the list version\<close>

lemma consume_job_heap_sim:
  assumes "p \<noteq> q" "p < length h" "q < length h"
  shows "view p q (consume_job_heap p q h job) = consume_job (view p q h) job \<and>
         length (consume_job_heap p q h job) = length h \<and>
         (\<forall>i. i \<noteq> p \<and> i \<noteq> q \<longrightarrow> consume_job_heap p q h job ! i = h ! i)"
  using assms by (auto simp: consume_job_heap_def consume_job_def view_def Let_def)

lemma consume_jobs_heap_sim:
  assumes "p \<noteq> q" "p < length h" "q < length h"
  shows "view p q (foldl (consume_job_heap p q) h js) = foldl consume_job (view p q h) js \<and>
         length (foldl (consume_job_heap p q) h js) = length h \<and>
         (\<forall>i. i \<noteq> p \<and> i \<noteq> q \<longrightarrow> foldl (consume_job_heap p q) h js ! i = h ! i)"
  using assms(2,3)
proof (induction js arbitrary: h)
  case Nil
  show ?case by simp
next
  case (Cons j js)
  note s = consume_job_heap_sim [OF assms(1) Cons.prems, of j]
  from s Cons.prems have "p < length (consume_job_heap p q h j)" "q < length (consume_job_heap p q h j)"
    by simp_all
  from Cons.IH [OF this] s show ?case by simp
qed

lemma run_heap_sim:
  assumes "p \<noteq> q"
  shows "p < length h \<Longrightarrow> q < length h \<Longrightarrow>
         (case run_heap n net start p q h of
            (h', None) \<Rightarrow> run n net start (view p q h) = Inr (view p q h')
          | (h', Some e) \<Rightarrow> run n net start (view p q h) = Inl e) \<and>
         length (fst (run_heap n net start p q h)) = length h \<and>
         (\<forall>i. i \<noteq> p \<and> i \<noteq> q \<longrightarrow> fst (run_heap n net start p q h) ! i = h ! i)"
proof (induction n arbitrary: h)
  case 0
  show ?case by simp
next
  case (Suc n)
  show ?case
  proof (cases "h ! p = []")
    case True
    then show ?thesis by (simp add: view_def)
  next
    case False
    show ?thesis
    proof (cases "job_sequence net start (h ! p)")
      case (Inl e)
      with False show ?thesis by (simp add: view_def schedule_iteration_def)
    next
      case (Inr js)
      let ?h = "foldl (consume_job_heap p q) h js"
      note s = consume_jobs_heap_sim [OF assms Suc.prems, of js]
      from s Suc.prems have len: "p < length ?h" "q < length ?h" by simp_all
      have it: "schedule_iteration net start (view p q h) = Inr (view p q ?h)"
        using Inr s by (simp add: schedule_iteration_def view_def)
      have eq: "run_heap (Suc n) net start p q h = run_heap n net start p q ?h"
        using False Inr by simp
      have eq': "run (Suc n) net start (view p q h) = run n net start (view p q ?h)"
        using False it by (simp add: view_def)
      from Suc.IH [OF len] s show ?thesis
        unfolding eq eq' by simp
    qed
  qed
qed

text \<open>
  Run on the caller's own list instead of a copy, the loop empties it.
\<close>

lemma run_heap_alias_example:
  "fst (run_heap 2 unit_network ''A'' 0 1 [[(''A'', ''B''), (''B'', ''A'')], []]) ! 0 = []"
  by code_simp

section \<open>Claims\<close>

text \<open>
  Claim C1, as amended.  When \<open>schedule\<close> returns, the schedule is a permutation of
  the input jobs.  At every point of the execution the multiset union of
  \<open>jobs_to_plan\<close> and \<open>new_schedule\<close> is the multiset of the input jobs; the two
  are disjoint when the input jobs are pairwise different.
\<close>

theorem schedule_conserves_jobs:
  "(schedule fuel net start jobs = Some (Inr new_schedule) \<longrightarrow> mset new_schedule = mset jobs) \<and>
   (state_at net start jobs n k = Some (jobs_to_plan, schedule_so_far) \<longrightarrow>
      mset jobs_to_plan + mset schedule_so_far = mset jobs \<and>
      (distinct jobs \<longrightarrow> mset jobs_to_plan \<inter># mset schedule_so_far = {#}))"
proof (intro conjI impI)
  assume "schedule fuel net start jobs = Some (Inr new_schedule)"
  then show "mset new_schedule = mset jobs" by (rule schedule_result_mset)
next
  assume st: "state_at net start jobs n k = Some (jobs_to_plan, schedule_so_far)"
  from state_at_mset [OF st]
  show inv: "mset jobs_to_plan + mset schedule_so_far = mset jobs" by simp
  assume "distinct jobs"
  with inv show "mset jobs_to_plan \<inter># mset schedule_so_far = {#}"
    by (rule disjoint_of_distinct)
qed

theorem schedule_conserves_jobs_witness:
  "schedule 2 unit_network ''A'' [(''A'', ''B''), (''A'', ''C''), (''B'', ''A''), (''C'', ''A'')]
     = Some (Inr [(''A'', ''B''), (''B'', ''A''), (''A'', ''C''), (''C'', ''A'')]) \<and>
   mset [(''A'', ''B''), (''B'', ''A''), (''A'', ''C''), (''C'', ''A'')]
     = mset [(''A'', ''B''), (''A'', ''C''), (''B'', ''A''), (''C'', ''A'')] \<and>
   state_at unit_network ''A'' [(''A'', ''B''), (''A'', ''C''), (''B'', ''A''), (''C'', ''A'')] 1 1
     = Some ([(''C'', ''A'')], [(''A'', ''B''), (''B'', ''A''), (''A'', ''C'')]) \<and>
   distinct [(''A'', ''B''), (''A'', ''C''), (''B'', ''A''), (''C'', ''A'')] \<and>
   mset [(''C'', ''A'')] + mset [(''A'', ''B''), (''B'', ''A''), (''A'', ''C'')]
     = mset [(''A'', ''B''), (''A'', ''C''), (''B'', ''A''), (''C'', ''A'')] \<and>
   mset [(''C'', ''A'')] \<inter># mset [(''A'', ''B''), (''B'', ''A''), (''A'', ''C'')] = {#}"
proof -
  let ?jobs = "[(''A'', ''B''), (''A'', ''C''), (''B'', ''A''), (''C'', ''A'')]"
  have r: "schedule 2 unit_network ''A'' ?jobs
     = Some (Inr [(''A'', ''B''), (''B'', ''A''), (''A'', ''C''), (''C'', ''A'')])"
    by code_simp
  have s: "state_at unit_network ''A'' ?jobs 1 1 = Some ([(''C'', ''A'')], [(''A'', ''B''), (''B'', ''A''), (''A'', ''C'')])"
    by code_simp
  have d: "distinct ?jobs" by simp
  from schedule_conserves_jobs [of 2 unit_network "''A''" ?jobs _ 1 1] r s d
  show ?thesis by blast
qed

text \<open>
  With the duplicate leg \<open>(A, B)\<close>, after the first round of the while-loop one copy
  is in the schedule and the other is still in the pool.
\<close>

theorem schedule_pool_meets_schedule:
  "state_at unit_network ''A'' [(''A'', ''B''), (''A'', ''B''), (''B'', ''A'')] 1 0
     = Some ([(''A'', ''B'')], [(''A'', ''B''), (''B'', ''A'')]) \<and>
   mset [(''A'', ''B'')] \<inter># mset [(''A'', ''B''), (''B'', ''A'')] = {#(''A'', ''B'')#} \<and>
   mset [(''A'', ''B'')] \<inter># mset [(''A'', ''B''), (''B'', ''A'')] \<noteq> {#}"
proof -
  have "state_at unit_network ''A'' [(''A'', ''B''), (''A'', ''B''), (''B'', ''A'')] 1 0
     = Some ([(''A'', ''B'')], [(''A'', ''B''), (''B'', ''A'')])"
    by code_simp
  moreover have "mset [(''A'', ''B'')] \<inter># mset [(''A'', ''B''), (''B'', ''A'')] = {#(''A'', ''B'')#}"
    by simp
  ultimately show ?thesis by simp
qed




text \<open>
  Claim C3, as amended.  \<open>schedule\<close> validates no location itself: it never
  consults the membership test, and with an empty job list it returns the empty schedule
  whatever \<open>start\<close> is.  With jobs, its first action is the Oracle's
  \<open>shortest_path\<close> query for the first job; when that query fails, \<open>schedule\<close>
  fails with the Oracle's error and returns no schedule.
\<close>

theorem schedule_fails_only_through_oracle:
  "schedule fuel net start [] = Some (Inr []) \<and>
   schedule fuel (net\<lparr>contains := c\<rparr>) start jobs = schedule fuel net start jobs \<and>
   (shortest_path net A B = Inl e \<longrightarrow>
      fst (build_aux_graph net ((A, B) # jobs) [] []) = [(A, B)] \<and>
      schedule (Suc fuel) net start ((A, B) # jobs) = Some (Inl e))"
proof (intro conjI impI)
  show "schedule fuel net start [] = Some (Inr [])"
    by (cases fuel) (simp_all add: schedule_def)
  show "schedule fuel (net\<lparr>contains := c\<rparr>) start jobs = schedule fuel net start jobs"
    by (simp add: schedule_def)
next
  assume e: "shortest_path net A B = Inl e"
  then show "fst (build_aux_graph net ((A, B) # jobs) [] []) = [(A, B)]"
    by (simp add: has_edge_def)
  from e have "schedule_iteration net start ((A, B) # jobs, []) = Inl e"
    by (simp add: schedule_iteration_def job_sequence_def find_perfect_circuit_first_query)
  then show "schedule (Suc fuel) net start ((A, B) # jobs) = Some (Inl e)"
    by (simp add: schedule_def)
qed

theorem schedule_fails_only_through_oracle_witness:
  "shortest_path unit_network ''Z'' ''B'' = Inl InvalidLocation \<and>
   fst (build_aux_graph unit_network [(''Z'', ''B'')] [] []) = [(''Z'', ''B'')] \<and>
   schedule 1 unit_network ''A'' [(''Z'', ''B'')] = Some (Inl InvalidLocation)"
proof -
  have "shortest_path unit_network ''Z'' ''B'' = Inl InvalidLocation"
    by (simp add: unit_network_def complete_network_def)
  with schedule_fails_only_through_oracle [of 0 unit_network "''A''" _ "[]" "''Z''" "''B''" InvalidLocation]
  show ?thesis by simp
qed

text \<open>
  \<open>Z\<close> is not a location of the example network; with no jobs \<open>schedule\<close>
  returns the empty schedule for it.
\<close>

theorem schedule_accepts_unknown_start:
  "\<not> contains unit_network ''Z'' \<and> schedule 1 unit_network ''Z'' [] = Some (Inr [])"
  by code_simp

text \<open>
  Claim C4.  If \<open>find_perfect_circuit\<close> returns a non-empty path, the path's first and
  last location are \<open>start\<close>, and every consecutive pair of locations in it is the
  (origin, destination) pair of one of the pending jobs.
\<close>

theorem find_perfect_circuit_is_circuit:
  assumes "find_perfect_circuit net start jobs = Inr path" "path \<noteq> []"
  shows "hd path = start \<and> last path = start \<and> set (jobs_from_path path) \<subseteq> set jobs"
  using find_perfect_circuit_sound [OF assms] by blast

theorem find_perfect_circuit_is_circuit_witness:
  "find_perfect_circuit unit_network ''A''
     [(''A'', ''B''), (''A'', ''C''), (''B'', ''A''), (''C'', ''A'')] = Inr [''A'', ''B'', ''A''] \<and>
   hd [''A'', ''B'', ''A''] = ''A'' \<and> last [''A'', ''B'', ''A''] = ''A'' \<and>
   set (jobs_from_path [''A'', ''B'', ''A''])
     \<subseteq> set [(''A'', ''B''), (''A'', ''C''), (''B'', ''A''), (''C'', ''A'')]"
proof -
  have run: "find_perfect_circuit unit_network ''A''
     [(''A'', ''B''), (''A'', ''C''), (''B'', ''A''), (''C'', ''A'')] = Inr [''A'', ''B'', ''A'']"
    by code_simp
  have "[''A'', ''B'', ''A''] \<noteq> []" by simp
  from find_perfect_circuit_is_circuit [OF run this] run show ?thesis by blast
qed



text \<open>
  Claim C6, as amended.  \<open>path_from_schedule\<close> starts the path at \<open>start\<close> and
  walks the ordering; whenever the next job's origin differs from the path's current
  last location it appends that origin itself, and then the job's destination.  No
  connector is looked up: the function does not receive the network, and the path holds
  no location other than \<open>start\<close> and the endpoints of the jobs.
\<close>

theorem path_from_schedule_jumps_to_origin:
  "path_from_schedule [] start = [start] \<and>
   path_from_schedule (jobs @ [(A, B)]) start =
     (if A \<noteq> last (path_from_schedule jobs start) then path_from_schedule jobs start @ [A, B]
      else path_from_schedule jobs start @ [B]) \<and>
   set (path_from_schedule jobs start) = {start} \<union> fst ` set jobs \<union> snd ` set jobs"
  using path_from_schedule_snoc [of jobs A B start] set_path_from_schedule [of jobs start]
  by simp

text \<open>
  On the chain network, job \<open>(C, B)\<close> from \<open>A\<close>: the code jumps from \<open>A\<close> to
  \<open>C\<close>, where the path worded in the specification inserts the connector through
  \<open>B\<close>.
\<close>

theorem path_from_schedule_no_connector:
  "path_from_schedule [(''C'', ''B'')] ''A'' = [''A'', ''C'', ''B''] \<and>
   spec_path_from_schedule chain_network [''A''] [(''C'', ''B'')] = Inr [''A'', ''B'', ''C'', ''B''] \<and>
   spec_path_from_schedule chain_network [''A''] [(''C'', ''B'')]
     \<noteq> Inr (path_from_schedule [(''C'', ''B'')] ''A'')"
  by (simp add: path_from_schedule_def extend_path_def chain_network_def chain_hops_def)

text \<open>
  Claim C7, as amended.  On the network \<open>{A, B, C}\<close> with unit edges, legs
  \<open>[(A,B), (A,C), (B,A), (C,A)]\<close> and home \<open>A\<close>, the Circuit Finder succeeds in
  the first round with the circuit \<open>A \<rightarrow> B \<rightarrow> A\<close>, which consumes two legs; the
  second round finds \<open>A \<rightarrow> C \<rightarrow> A\<close> and consumes the other two.  The schedule is
  produced by two circuit batches.
\<close>

theorem example_1_two_batches:
  "find_perfect_circuit unit_network ''A''
     [(''A'', ''B''), (''A'', ''C''), (''B'', ''A''), (''C'', ''A'')] = Inr [''A'', ''B'', ''A''] \<and>
   schedule_iteration unit_network ''A''
     ([(''A'', ''B''), (''A'', ''C''), (''B'', ''A''), (''C'', ''A'')], [])
     = Inr ([(''A'', ''C''), (''C'', ''A'')], [(''A'', ''B''), (''B'', ''A'')]) \<and>
   find_perfect_circuit unit_network ''A'' [(''A'', ''C''), (''C'', ''A'')] = Inr [''A'', ''C'', ''A''] \<and>
   schedule_iteration unit_network ''A'' ([(''A'', ''C''), (''C'', ''A'')], [(''A'', ''B''), (''B'', ''A'')])
     = Inr ([], [(''A'', ''B''), (''B'', ''A''), (''A'', ''C''), (''C'', ''A'')]) \<and>
   schedule 2 unit_network ''A'' [(''A'', ''B''), (''A'', ''C''), (''B'', ''A''), (''C'', ''A'')]
     = Some (Inr [(''A'', ''B''), (''B'', ''A''), (''A'', ''C''), (''C'', ''A'')])"
  by code_simp

text \<open>
  After the first round two legs are still pending, and one round does not end the loop.
\<close>

theorem example_1_first_batch_leaves_two_legs:
  "state_at unit_network ''A'' [(''A'', ''B''), (''A'', ''C''), (''B'', ''A''), (''C'', ''A'')] 1 0
     = Some ([(''A'', ''C''), (''C'', ''A'')], [(''A'', ''B''), (''B'', ''A'')]) \<and>
   schedule 1 unit_network ''A'' [(''A'', ''B''), (''A'', ''C''), (''B'', ''A''), (''C'', ''A'')] = None"
  by code_simp

text \<open>
  Claim C8.  The auxiliary graph of \<open>find_perfect_circuit\<close> has exactly one edge for
  each different (origin, destination) pair of the pending jobs, in the order of their
  first occurrence, weighted by the distance the Oracle's \<open>shortest_path\<close> returns
  for the pair; \<open>shortest_path\<close> is queried once for each edge added and never twice
  for the same pair, also when a query fails.
\<close>

theorem aux_graph_one_edge_per_pair:
  "distinct (fst (build_aux_graph net jobs [] [])) \<and>
   set (fst (build_aux_graph net jobs [] [])) \<subseteq> set jobs \<and>
   (snd (build_aux_graph net jobs [] []) = Inr g \<longrightarrow>
      distinct (map fst g) \<and> set (map fst g) = set jobs \<and>
      map fst g = first_occurrences jobs \<and>
      (\<forall>e \<in> set g. \<exists>p. shortest_path net (fst (fst e)) (snd (fst e)) = Inr (snd e, p)) \<and>
      fst (build_aux_graph net jobs [] []) = map fst g)"
proof -
  let ?R = "build_aux_graph net jobs [] []"
  from build_aux_graph_inv [of "[]" "[]" net jobs]
  have d: "distinct (fst ?R)" and s: "set (fst ?R) \<subseteq> set jobs"
    and a: "\<And>g'. snd ?R = Inr g' \<Longrightarrow> fst ?R = map fst g' \<and> map fst g' = first_occurrences jobs \<and>
            (\<forall>e \<in> set g'. \<exists>p. shortest_path net (fst (fst e)) (snd (fst e)) = Inr (snd e, p))"
    by simp_all
  show ?thesis
  proof (intro conjI impI)
    assume g: "snd ?R = Inr g"
    from a [OF g] d show "distinct (map fst g)" by simp
    from a [OF g] have "set (map fst g) = set (first_occurrences jobs)" by simp
    then show "set (map fst g) = set jobs" by (simp only: set_first_occurrences)
    from a [OF g] show "map fst g = first_occurrences jobs"
      "\<forall>e \<in> set g. \<exists>p. shortest_path net (fst (fst e)) (snd (fst e)) = Inr (snd e, p)"
      "fst ?R = map fst g" by blast+
  qed (fact d s)+
qed

theorem aux_graph_one_edge_per_pair_witness:
  "build_aux_graph unit_network [(''A'', ''B''), (''A'', ''B''), (''B'', ''A'')] [] []
     = ([(''A'', ''B''), (''B'', ''A'')], Inr [((''A'', ''B''), Finite 1), ((''B'', ''A''), Finite 1)]) \<and>
   distinct [(''A'', ''B''), (''B'', ''A'')] \<and>
   set [(''A'', ''B''), (''B'', ''A'')] = set [(''A'', ''B''), (''A'', ''B''), (''B'', ''A'')] \<and>
   (\<exists>p. shortest_path unit_network ''A'' ''B'' = Inr (Finite 1, p))"
proof -
  let ?jobs = "[(''A'', ''B''), (''A'', ''B''), (''B'', ''A'')]"
  let ?g = "[((''A'', ''B''), Finite 1), ((''B'', ''A''), Finite 1)]"
  have b: "build_aux_graph unit_network ?jobs [] [] = ([(''A'', ''B''), (''B'', ''A'')], Inr ?g)"
    by code_simp
  then have "snd (build_aux_graph unit_network ?jobs [] []) = Inr ?g" by simp
  with aux_graph_one_edge_per_pair [of unit_network ?jobs ?g]
  have "distinct (map fst ?g)" "set (map fst ?g) = set ?jobs"
    "\<forall>e \<in> set ?g. \<exists>p. shortest_path unit_network (fst (fst e)) (snd (fst e)) = Inr (snd e, p)"
    by blast+
  with b show ?thesis by simp
qed

text \<open>
  Claim C9.  \<open>schedule\<close> does not change the caller's list: when the call ends, by
  returning or by an error, the list at the reference \<open>jobs\<close> and every other
  object the store held before are as they were.  The list it returns is the one the
  list version computes.
\<close>

theorem schedule_leaves_input_list:
  assumes "jobs < length h" "schedule_heap fuel net start jobs h = Some (h', result)"
  shows "h' ! jobs = h ! jobs \<and> take (length h) h' = h \<and>
         schedule fuel net start (h ! jobs) =
           Some (case result of Inl e \<Rightarrow> Inl e | Inr new_schedule \<Rightarrow> Inr (h' ! new_schedule))"
proof -
  let ?q = "length h" and ?p = "Suc (length h)"
  let ?h2 = "(h @ [[]]) @ [h ! jobs]"
  have pq: "?p \<noteq> ?q" "?p < length ?h2" "?q < length ?h2" by simp_all
  have v: "view ?p ?q ?h2 = (h ! jobs, [])"
    by (simp add: view_def nth_append)
  obtain hf err where r: "run_heap fuel net start ?p ?q ?h2 = (hf, err)"
    by (cases "run_heap fuel net start ?p ?q ?h2")
  note sim = run_heap_sim [OF pq, of fuel net start]
  from sim r have len: "length hf = length ?h2" and frame: "\<forall>i. i \<noteq> ?p \<and> i \<noteq> ?q \<longrightarrow> hf ! i = ?h2 ! i"
    by simp_all
  from assms(2) r assms(1) have h': "h' = hf"
    by (auto simp: schedule_heap_def Let_def nth_append split: option.splits if_splits)
  have old: "hf ! i = h ! i" if "i < length h" for i
    using frame that by (simp add: nth_append)
  have c1: "h' ! jobs = h ! jobs" using old [OF assms(1)] h' by simp
  have c2: "take (length h) h' = h"
    unfolding h' using len old by (intro nth_equalityI) simp_all
  have c3: "schedule fuel net start (h ! jobs) =
           Some (case result of Inl e \<Rightarrow> Inl e | Inr new_schedule \<Rightarrow> Inr (h' ! new_schedule))"
  proof (cases err)
    case None
    with sim r v have "run fuel net start (h ! jobs, []) = Inr (hf ! ?p, hf ! ?q)"
      by (simp add: view_def)
    moreover from assms r None have "hf ! ?p = []" "result = Inr ?q"
      by (auto simp: schedule_heap_def Let_def nth_append split: if_splits)
    ultimately show ?thesis by (simp add: schedule_def h')
  next
    case (Some e)
    with sim r v have "run fuel net start (h ! jobs, []) = Inl e"
      by simp
    moreover from assms r Some have "result = Inl e"
      by (auto simp: schedule_heap_def Let_def nth_append)
    ultimately show ?thesis by (simp add: schedule_def)
  qed
  from c1 c2 c3 show ?thesis by blast
qed

theorem schedule_leaves_input_list_witness:
  "schedule_heap 2 unit_network ''A'' 0 [[(''A'', ''B''), (''A'', ''C''), (''B'', ''A''), (''C'', ''A'')]]
     = Some ([[(''A'', ''B''), (''A'', ''C''), (''B'', ''A''), (''C'', ''A'')],
              [(''A'', ''B''), (''B'', ''A''), (''A'', ''C''), (''C'', ''A'')], []], Inr 1) \<and>
   [[(''A'', ''B''), (''A'', ''C''), (''B'', ''A''), (''C'', ''A'')],
    [(''A'', ''B''), (''B'', ''A''), (''A'', ''C''), (''C'', ''A'')], []] ! 0
     = [[(''A'', ''B''), (''A'', ''C''), (''B'', ''A''), (''C'', ''A'')]] ! 0"
proof -
  let ?h = "[[(''A'', ''B''), (''A'', ''C''), (''B'', ''A''), (''C'', ''A'')]]"
  have len: "0 < length ?h" by simp
  have r: "schedule_heap 2 unit_network ''A'' 0 ?h
     = Some ([[(''A'', ''B''), (''A'', ''C''), (''B'', ''A''), (''C'', ''A'')],
              [(''A'', ''B''), (''B'', ''A''), (''A'', ''C''), (''C'', ''A'')], []], Inr 1)"
    by code_simp
  from schedule_leaves_input_list [OF len r] r show ?thesis by blast
qed

text \<open>
  Claim C10.  Once the auxiliary graph is built, \<open>find_perfect_circuit\<close> returns the
  empty list when no pending job starts at \<open>start\<close>, when the breadth-first search
  reaches \<open>start\<close> from no candidate, and in general when the pending jobs form no
  closed walk from \<open>start\<close>; on the empty list \<open>schedule\<close> takes the permutation
  fallback.
\<close>

theorem find_perfect_circuit_empty_path:
  "(snd (build_aux_graph net jobs [] []) = Inr g \<longrightarrow>
      ((\<forall>job \<in> set jobs. fst job \<noteq> start) \<longrightarrow> find_perfect_circuit net start jobs = Inr []) \<and>
      ((\<forall>A \<in> set (new_starts start jobs). breadth_first_search g A start = []) \<longrightarrow>
          find_perfect_circuit net start jobs = Inr [])) \<and>
   (find_perfect_circuit net start jobs = Inr path \<and>
    \<not> (\<exists>c. hd c = start \<and> last c = start \<and> jobs_from_path c \<noteq> [] \<and>
           set (jobs_from_path c) \<subseteq> set jobs) \<longrightarrow> path = []) \<and>
   (find_perfect_circuit net start jobs = Inr [] \<longrightarrow>
      job_sequence net start jobs =
        (case permutation_fallback net start jobs of
           Inl e \<Rightarrow> Inl e
         | Inr (shortest_distance, shortest) \<Rightarrow> Inr (jobs_from_path shortest)))"
proof (intro conjI impI)
  assume g: "snd (build_aux_graph net jobs [] []) = Inr g"
  then have fpc: "find_perfect_circuit net start jobs = Inr (first_circuit g start (new_starts start jobs))"
    by (simp add: find_perfect_circuit_def)
  {
    assume "\<forall>job \<in> set jobs. fst job \<noteq> start"
    then have "new_starts start jobs = []"
      by (simp add: new_starts_def filter_empty_conv)
    with fpc show "find_perfect_circuit net start jobs = Inr []" by simp
  }
  {
    assume "\<forall>A \<in> set (new_starts start jobs). breadth_first_search g A start = []"
    then have "first_circuit g start (new_starts start jobs) = []" by (rule first_circuit_none)
    with fpc show "find_perfect_circuit net start jobs = Inr []" by simp
  }
next
  assume a: "find_perfect_circuit net start jobs = Inr path \<and>
    \<not> (\<exists>c. hd c = start \<and> last c = start \<and> jobs_from_path c \<noteq> [] \<and>
           set (jobs_from_path c) \<subseteq> set jobs)"
  show "path = []"
  proof (rule ccontr)
    assume "path \<noteq> []"
    with a find_perfect_circuit_sound [of net start jobs path]
    have "hd path = start \<and> last path = start \<and> jobs_from_path path \<noteq> [] \<and>
           set (jobs_from_path path) \<subseteq> set jobs"
      by auto
    with a show False by blast
  qed
next
  assume "find_perfect_circuit net start jobs = Inr []"
  then show "job_sequence net start jobs =
        (case permutation_fallback net start jobs of
           Inl e \<Rightarrow> Inl e
         | Inr (shortest_distance, shortest) \<Rightarrow> Inr (jobs_from_path shortest))"
    by (simp add: job_sequence_def)
qed


theorem find_perfect_circuit_empty_path_witness:
  "find_perfect_circuit unit_network ''A'' [(''B'', ''C'')] = Inr [] \<and>
   find_perfect_circuit unit_network ''A'' [(''A'', ''B''), (''B'', ''C'')] = Inr [] \<and>
   job_sequence unit_network ''A'' [(''A'', ''B''), (''B'', ''C'')] = Inr [(''A'', ''B''), (''B'', ''C'')]"
proof -
  have g1: "snd (build_aux_graph unit_network [(''B'', ''C'')] [] []) = Inr [((''B'', ''C''), Finite 1)]"
    by code_simp
  have h1: "\<forall>job \<in> set [(''B'', ''C'')]. fst job \<noteq> ''A''" by simp
  have c1: "find_perfect_circuit unit_network ''A'' [(''B'', ''C'')] = Inr []"
    using find_perfect_circuit_empty_path [of unit_network "[(''B'', ''C'')]" _ "''A''"] g1 h1
    by blast
  have g2: "snd (build_aux_graph unit_network [(''A'', ''B''), (''B'', ''C'')] [] [])
              = Inr [((''A'', ''B''), Finite 1), ((''B'', ''C''), Finite 1)]"
    by code_simp
  have h2: "\<forall>A \<in> set (new_starts ''A'' [(''A'', ''B''), (''B'', ''C'')]).
              breadth_first_search [((''A'', ''B''), Finite 1), ((''B'', ''C''), Finite 1)] A ''A'' = []"
    by code_simp
  have c2: "find_perfect_circuit unit_network ''A'' [(''A'', ''B''), (''B'', ''C'')] = Inr []"
    using find_perfect_circuit_empty_path [of unit_network "[(''A'', ''B''), (''B'', ''C'')]" _ "''A''"] g2 h2
    by blast
  have f: "permutation_fallback unit_network ''A'' [(''A'', ''B''), (''B'', ''C'')]
             = Inr (Finite 2, [''A'', ''B'', ''C''])"
    by code_simp
  have "job_sequence unit_network ''A'' [(''A'', ''B''), (''B'', ''C'')] = Inr [(''A'', ''B''), (''B'', ''C'')]"
    using find_perfect_circuit_empty_path [of unit_network "[(''A'', ''B''), (''B'', ''C'')]" _ "''A''"] c2 f
    by simp
  with c1 c2 show ?thesis by blast
qed

end
